theory Spec2Isabelle
  imports Complex_Main "HOL-Library.Word"
begin

section \<open>Hardware Mixer: the serial session and the PulseAudio volume router\<close>

text \<open>
  A shallow embedding of \<^verbatim>\<open>main.py\<close>. The class \<^verbatim>\<open>Mixer\<close> talks to the
  hardware over a serial port; \<^verbatim>\<open>PulseAudioConnection.listen\<close> pushes the mixer's
  volumes to the sink inputs of PulseAudio. Serial ports and PulseAudio are external:
  what they answer is an argument of the model, what the code does with the answer is
  the model.

  Exceptions are values of \<open>error\<close>. Bytes are \<open>8 word\<close>. A volume is the quotient
  \<^verbatim>\<open>values[i] / 100\<close> of Python, taken as a real number.
\<close>

type_synonym byte = "8 word"

datatype error = SerialException | IndexError | TypeError | ValueError | PulseOperationFailed

subsection \<open>Python primitives used by the source\<close>

text \<open>\<^verbatim>\<open>xs[i]\<close> for a Python \<^verbatim>\<open>int\<close>: a negative index counts from the end,
  an index outside the list raises \<^verbatim>\<open>IndexError\<close>.\<close>

definition list_get :: "'a list \<Rightarrow> int \<Rightarrow> error + 'a" where
  "list_get xs i =
     (if 0 \<le> i then (if nat i < length xs then Inr (xs ! nat i) else Inl IndexError)
      else (if nat (- i) \<le> length xs then Inr (xs ! (length xs - nat (- i))) else Inl IndexError))"

text \<open>\<^verbatim>\<open>int.from_bytes(bs, 'big')\<close>; the empty byte string gives 0.\<close>

definition from_bytes_big :: "byte list \<Rightarrow> nat" where
  "from_bytes_big bs = foldl (\<lambda>acc b. acc * 256 + unat b) 0 bs"

text \<open>\<^verbatim>\<open>xs.index(x)\<close>: the first position that holds \<open>x\<close>, \<^verbatim>\<open>ValueError\<close> when
  there is none.\<close>

fun list_index :: "'a \<Rightarrow> 'a list \<Rightarrow> error + nat" where
  "list_index x [] = Inl ValueError"
| "list_index x (y # ys) =
     (if y = x then Inr 0
      else (case list_index x ys of Inl e \<Rightarrow> Inl e | Inr k \<Rightarrow> Inr (Suc k)))"

subsection \<open>The serial side: class Mixer\<close>

text \<open>
  One entry of \<^verbatim>\<open>serial.tools.list_ports.comports()\<close>, together with what the device
  behind it does when the session talks to it: whether \<^verbatim>\<open>serial.Serial(i.device)\<close>
  opens, what \<^verbatim>\<open>read_all()\<close> returns after the two seconds, whether
  \<^verbatim>\<open>write(b"\0")\<close> goes through, and what \<^verbatim>\<open>read(1)\<close> returns. pyserial reports
  \<^verbatim>\<open>subsystem\<close> and \<^verbatim>\<open>manufacturer\<close> as a string or \<^verbatim>\<open>None\<close>. The port is
  opened by \<^verbatim>\<open>serial.Serial(i.device)\<close>, without a timeout: its \<^verbatim>\<open>read(1)\<close> waits
  for a byte and raises \<^verbatim>\<open>SerialException\<close> when the device delivers none.
\<close>

record comport =
  device :: string
  subsystem :: "string option"
  manufacturer :: "string option"
  opens :: bool
  greeting :: "error + byte list"
  writable :: bool
  reply :: "error + byte list"

text \<open>The fields of a \<^verbatim>\<open>Mixer\<close>: \<^verbatim>\<open>_volumes\<close>, \<^verbatim>\<open>_channels\<close>, and of
  \<^verbatim>\<open>_port\<close> the device it names (none for the bare \<^verbatim>\<open>serial.Serial()\<close>) and
  whether it is open.\<close>

record mixer =
  volumes :: "real list"
  port :: "string option"
  is_open :: bool
  channels :: nat

text \<open>The bytes of \<^verbatim>\<open>b'Hardware Mixer'\<close>.\<close>

definition Hardware_Mixer :: "byte list" where
  "Hardware_Mixer = map of_char ''Hardware Mixer''"

text \<open>The \<^verbatim>\<open>for i in serial.tools.list_ports.comports()\<close> loop of
  \<^verbatim>\<open>_connect_mixer\<close>: it returns from the function (\<open>Found\<close>), falls out of the
  loop (\<open>Not_found\<close>) or raises; what the fields hold when an exception leaves the
  method is not kept. Slicing never raises; \<^verbatim>\<open>None[:7]\<close> is a
  \<^verbatim>\<open>TypeError\<close>; \<^verbatim>\<open>and\<close> does not evaluate its right side when the left is
  false. \<^verbatim>\<open>time.sleep\<close> has no part in the result.\<close>

datatype scan = Found mixer | Not_found mixer | Raised error

fun comports_loop :: "comport list \<Rightarrow> mixer \<Rightarrow> scan" where
  "comports_loop [] m = Not_found m"
| "comports_loop (i # rest) m =
     (if subsystem i = Some ''usb'' then
        (case manufacturer i of
           None \<Rightarrow> Raised TypeError
         | Some man \<Rightarrow>
             if take 7 man = ''Arduino'' then
               (if \<not> opens i then Raised SerialException
                else
                  (case greeting i of
                     Inl e \<Rightarrow> Raised e
                   | Inr bs \<Rightarrow>
                       if take 14 bs = Hardware_Mixer then
                         (if \<not> writable i then Raised SerialException
                          else
                            (case reply i of
                               Inl e \<Rightarrow> Raised e
                             | Inr r \<Rightarrow>
                                 Found (m\<lparr>port := Some (device i), is_open := True,
                                          channels := from_bytes_big r\<rparr>)))
                       else comports_loop rest (m\<lparr>port := Some (device i), is_open := False\<rparr>)))
             else comports_loop rest m)
      else comports_loop rest m)"

text \<open>
  The \<^verbatim>\<open>while True\<close> of \<^verbatim>\<open>_connect_mixer\<close>. Its argument lists what
  \<^verbatim>\<open>comports()\<close> returns at each pass, in order; the result is \<open>None\<close> when all the
  listed passes went by without a mixer and without an exception, that is when the
  call is still blocked after them.
\<close>

fun scan_loop :: "comport list list \<Rightarrow> mixer \<Rightarrow> (error + mixer) option" where
  "scan_loop [] m = None"
| "scan_loop (ports # later) m =
     (case comports_loop ports m of
        Found m' \<Rightarrow> Some (Inr m')
      | Raised e \<Rightarrow> Some (Inl e)
      | Not_found m' \<Rightarrow> scan_loop later m')"

text \<open>\<^verbatim>\<open>_connect_mixer\<close>. A \<^verbatim>\<open>Serial\<close> object is always true, so the port is
  closed first.\<close>

definition connect_mixer :: "comport list list \<Rightarrow> mixer \<Rightarrow> (error + mixer) option" where
  "connect_mixer passes m = scan_loop passes (m\<lparr>is_open := False\<rparr>)"

text \<open>
  \<^verbatim>\<open>for i in range(self._channels): self._volumes[i] = values[i] / 100\<close>, over the
  list of the indices. The right side is evaluated first; either subscript raises
  \<^verbatim>\<open>IndexError\<close> out of range. Assigning to an item never changes the length of
  the list.
\<close>

fun volumes_loop :: "nat list \<Rightarrow> byte list \<Rightarrow> real list \<Rightarrow> error + real list" where
  "volumes_loop [] values vols = Inr vols"
| "volumes_loop (i # rest) values vols =
     (if i < length values then
        (if i < length vols
         then volumes_loop rest values (vols[i := real (unat (values ! i)) / 100])
         else Inl IndexError)
      else Inl IndexError)"

text \<open>
  \<^verbatim>\<open>read_volumes\<close>. \<open>rd\<close> is the outcome of \<^verbatim>\<open>self._port.read(self._channels)\<close>,
  \<open>passes\<close> what the port scans of a reconnect would see. Only
  \<^verbatim>\<open>serial.SerialException\<close> is caught, and the handler calls
  \<^verbatim>\<open>_connect_mixer\<close> outside any \<^verbatim>\<open>try\<close>.
\<close>

definition read_volumes ::
  "(error + byte list) \<Rightarrow> comport list list \<Rightarrow> mixer \<Rightarrow> (error + mixer) option" where
  "read_volumes rd passes m =
     (case rd of
        Inl e \<Rightarrow> if e = SerialException then connect_mixer passes m else Some (Inl e)
      | Inr values \<Rightarrow>
          (case volumes_loop [0..<channels m] values (volumes m) of
             Inl e \<Rightarrow> Some (Inl e)
           | Inr vols \<Rightarrow> Some (Inr (m\<lparr>volumes := vols\<rparr>))))"

text \<open>\<^verbatim>\<open>get_volumes\<close>: a deep copy of the list, here its value.\<close>

definition get_volumes :: "mixer \<Rightarrow> real list" where
  "get_volumes m = volumes m"

text \<open>\<^verbatim>\<open>Mixer.__init__\<close>: the fields, then \<^verbatim>\<open>_connect_mixer()\<close>, then
  \<^verbatim>\<open>read_volumes()\<close>.\<close>

definition new_mixer :: mixer where
  "new_mixer = \<lparr>volumes = [0, 0], port = None, is_open = False, channels = 0\<rparr>"

definition Mixer_init ::
  "comport list list \<Rightarrow> (error + byte list) \<Rightarrow> comport list list \<Rightarrow> (error + mixer) option" where
  "Mixer_init passes rd passes' =
     (case connect_mixer passes new_mixer of
        None \<Rightarrow> None
      | Some (Inl e) \<Rightarrow> Some (Inl e)
      | Some (Inr m) \<Rightarrow> read_volumes rd passes' m)"

subsection \<open>The routing table of the main block\<close>

text \<open>
  The global \<^verbatim>\<open>channels\<close> is a list of lists of application names, written
  \<open>chans\<close> below (the name \<open>channels\<close> is the field of the mixer); the mixer's
  volumes, the local \<^verbatim>\<open>volumes\<close> of \<^verbatim>\<open>listen\<close>, are written \<open>vols\<close>.
  \<^verbatim>\<open>any_controller\<close> is \<^verbatim>\<open>channels.index(["ANY"]) + 1\<close>, or \<^verbatim>\<open>False\<close> (here
  \<open>None\<close>) when \<^verbatim>\<open>index\<close> raises \<^verbatim>\<open>ValueError\<close>.
\<close>

definition any_controller :: "string list list \<Rightarrow> int option" where
  "any_controller chans =
     (case list_index [''ANY''] chans of Inr k \<Rightarrow> Some (int k + 1) | Inl e \<Rightarrow> None)"

subsection \<open>The PulseAudio side: PulseAudioConnection.listen\<close>

text \<open>
  A sink input as \<^verbatim>\<open>sink_input_list()\<close> returns it: its index and
  \<^verbatim>\<open>sink.proplist.get('application.name')\<close>, which is \<^verbatim>\<open>None\<close> when the
  property is absent.
\<close>

record sink_input =
  sink_index :: nat
  application_name :: "string option"

text \<open>
  PulseAudio as the loop sees it: the event mask last set (the position in
  \<^verbatim>\<open>event_masks\<close>), the sink inputs that are gone by the time their volume is set,
  every call of \<^verbatim>\<open>volume_set_all_chans\<close> made so far, in order, and the volume
  each sink input was given.
\<close>

record pulse =
  event_mask :: nat
  vanished :: "nat list"
  requests :: "(nat \<times> real) list"
  sink_volume :: "nat \<Rightarrow> real option"

text \<open>
  \<^verbatim>\<open>pulsectl\<close>'s \<^verbatim>\<open>volume_set_all_chans(sink, v)\<close>: the call is made; it raises
  \<^verbatim>\<open>PulseOperationFailed\<close> for a sink input that is gone and sets the volume
  otherwise.
\<close>

definition volume_set_all_chans :: "pulse \<Rightarrow> sink_input \<Rightarrow> real \<Rightarrow> error option \<times> pulse" where
  "volume_set_all_chans p sink v =
     (if sink_index sink \<in> set (vanished p)
      then (Some PulseOperationFailed, p\<lparr>requests := requests p @ [(sink_index sink, v)]\<rparr>)
      else (None, p\<lparr>requests := requests p @ [(sink_index sink, v)],
                    sink_volume := (sink_volume p)(sink_index sink \<mapsto> v)\<rparr>))"

text \<open>
  \<^verbatim>\<open>for i, channel_apps in enumerate(channels): ... break\<close> with its \<^verbatim>\<open>else\<close>
  branch, which runs when the loop ends without \<^verbatim>\<open>break\<close>. The argument
  \<^verbatim>\<open>volumes[i]\<close> is evaluated before the call, and raises \<^verbatim>\<open>IndexError\<close> out
  of range. The result is the exception that leaves the loop, if any, and PulseAudio
  after it.
\<close>

fun channels_loop ::
  "int option \<Rightarrow> real list \<Rightarrow> pulse \<Rightarrow> sink_input \<Rightarrow> string \<Rightarrow> nat \<Rightarrow> string list list
     \<Rightarrow> error option \<times> pulse" where
  "channels_loop any_c vols p sink app_name i [] =
     (case any_c of
        None \<Rightarrow> (None, p)
      | Some c \<Rightarrow>
          (case list_get vols (c - 1) of
             Inl e \<Rightarrow> (Some e, p)
           | Inr v \<Rightarrow> volume_set_all_chans p sink v))"
| "channels_loop any_c vols p sink app_name i (channel_apps # rest) =
     (if app_name \<in> set channel_apps then
        (case list_get vols (int i) of
           Inl e \<Rightarrow> (Some e, p)
         | Inr v \<Rightarrow> volume_set_all_chans p sink v)
      else channels_loop any_c vols p sink app_name (Suc i) rest)"

text \<open>
  The body of \<^verbatim>\<open>for sink in self._pulse.sink_input_list()\<close>.
  \<^verbatim>\<open>if not app_name: continue\<close> skips \<^verbatim>\<open>None\<close> and the empty string; the
  \<^verbatim>\<open>try\<close> catches \<^verbatim>\<open>pulsectl.PulseOperationFailed\<close> and nothing else.
\<close>

definition listen_sink ::
  "string list list \<Rightarrow> int option \<Rightarrow> real list \<Rightarrow> pulse \<Rightarrow> sink_input \<Rightarrow> error option \<times> pulse" where
  "listen_sink chans any_c vols p sink =
     (case application_name sink of
        None \<Rightarrow> (None, p)
      | Some app_name \<Rightarrow>
          if app_name = [] then (None, p)
          else
            (case channels_loop any_c vols p sink app_name 0 chans of
               (None, p') \<Rightarrow> (None, p')
             | (Some e, p') \<Rightarrow> if e = PulseOperationFailed then (None, p') else (Some e, p')))"

text \<open>The \<^verbatim>\<open>for sink in ...\<close> loop: an exception that leaves the body leaves the
  loop.\<close>

fun sinks_loop ::
  "string list list \<Rightarrow> int option \<Rightarrow> real list \<Rightarrow> pulse \<Rightarrow> sink_input list \<Rightarrow> error option \<times> pulse" where
  "sinks_loop chans any_c vols p [] = (None, p)"
| "sinks_loop chans any_c vols p (sink # rest) =
     (case listen_sink chans any_c vols p sink of
        (None, p') \<Rightarrow> sinks_loop chans any_c vols p' rest
      | (Some e, p') \<Rightarrow> (Some e, p'))"

text \<open>
  One pass of the \<^verbatim>\<open>while True\<close> of \<^verbatim>\<open>listen\<close>, up to \<^verbatim>\<open>event_listen()\<close>:
  \<open>mx\<close> is the mixer when \<^verbatim>\<open>get_volumes()\<close> is called and \<open>sinks\<close> what
  \<^verbatim>\<open>sink_input_list()\<close> returns.
\<close>

definition listen_iteration ::
  "string list list \<Rightarrow> int option \<Rightarrow> mixer \<Rightarrow> sink_input list \<Rightarrow> pulse \<Rightarrow> error option \<times> pulse" where
  "listen_iteration chans any_c mx sinks p =
     (let vols = get_volumes mx in
      case sinks_loop chans any_c vols (p\<lparr>event_mask := 8\<rparr>) sinks of
        (None, p') \<Rightarrow> (None, p'\<lparr>event_mask := 9\<rparr>)
      | (Some e, p') \<Rightarrow> (Some e, p'))"

text \<open>
  \<^verbatim>\<open>listen\<close>, over the mixer and the sink inputs that each pass finds; at the end
  of the list the loop is waiting in \<^verbatim>\<open>event_listen()\<close>.
\<close>

fun listen ::
  "string list list \<Rightarrow> int option \<Rightarrow> (mixer \<times> sink_input list) list \<Rightarrow> pulse \<Rightarrow> error option \<times> pulse" where
  "listen chans any_c [] p = (None, p)"
| "listen chans any_c ((mx, sinks) # later) p =
     (case listen_iteration chans any_c mx sinks p of
        (None, p') \<Rightarrow> listen chans any_c later p'
      | (Some e, p') \<Rightarrow> (Some e, p'))"

subsection \<open>The two threads on the list of volumes\<close>

text \<open>
  \<^verbatim>\<open>_mixer_listener\<close> runs \<^verbatim>\<open>read_volumes\<close> in a thread of its own while the
  main thread runs \<^verbatim>\<open>listen\<close>, and both use the one list \<^verbatim>\<open>self._volumes\<close>.
  The state below is that list, the \<open>i\<close> the \<^verbatim>\<open>for\<close> loop of
  \<^verbatim>\<open>read_volumes\<close> has reached after the frame \<open>values\<close> was read, and the new
  list that \<^verbatim>\<open>copy.deepcopy\<close> is filling for \<^verbatim>\<open>get_volumes\<close>. A step of
  \<open>Mixer_listener\<close> is one pass of the \<^verbatim>\<open>for\<close> body of \<^verbatim>\<open>read_volumes\<close>, which
  assigns one item in place; a step of \<open>Main_thread\<close> copies the next item, as
  \<^verbatim>\<open>deepcopy\<close> walks a list item by item. A thread that is done, or whose
  subscript would raise, stays where it is. The schedule says which thread moves
  next; the main thread copies the list in one go when its steps follow each other.
\<close>

datatype thread = Mixer_listener | Main_thread

record race =
  stored :: "real list"
  next_i :: nat
  copy :: "real list"

fun race_step :: "nat \<Rightarrow> byte list \<Rightarrow> thread \<Rightarrow> race \<Rightarrow> race" where
  "race_step n values Mixer_listener s =
     (if next_i s < n \<and> next_i s < length values \<and> next_i s < length (stored s)
      then s\<lparr>stored := (stored s)[next_i s := real (unat (values ! next_i s)) / 100],
             next_i := Suc (next_i s)\<rparr>
      else s)"
| "race_step n values Main_thread s =
     (if length (copy s) < length (stored s)
      then s\<lparr>copy := copy s @ [stored s ! length (copy s)]\<rparr>
      else s)"

fun race_run :: "nat \<Rightarrow> byte list \<Rightarrow> thread list \<Rightarrow> race \<Rightarrow> race" where
  "race_run n values [] s = s"
| "race_run n values (t # schedule) s = race_run n values schedule (race_step n values t s)"

subsection \<open>Notions used in the statements\<close>

text \<open>A port the scan goes past without an exception: not a USB port, or not an
  Arduino, or one that opens and does not greet as a mixer.\<close>

definition passed_over :: "comport \<Rightarrow> bool" where
  "passed_over c =
     (if subsystem c = Some ''usb'' then
        (case manufacturer c of
           None \<Rightarrow> False
         | Some man \<Rightarrow>
             if take 7 man = ''Arduino''
             then opens c \<and> (case greeting c of Inl e \<Rightarrow> False | Inr bs \<Rightarrow> take 14 bs \<noteq> Hardware_Mixer)
             else True)
      else True)"

text \<open>A port behind which a mixer answers: every step of the handshake succeeds.\<close>

definition answers :: "comport \<Rightarrow> bool" where
  "answers c =
     (subsystem c = Some ''usb''
      \<and> (case manufacturer c of None \<Rightarrow> False | Some man \<Rightarrow> take 7 man = ''Arduino'')
      \<and> opens c
      \<and> (case greeting c of Inl e \<Rightarrow> False | Inr bs \<Rightarrow> take 14 bs = Hardware_Mixer)
      \<and> writable c
      \<and> (case reply c of Inl e \<Rightarrow> False | Inr r \<Rightarrow> True))"

text \<open>What holds of the two threads at every moment, for the list \<open>old\<close> that was
  stored when the frame arrived.\<close>

definition race_inv :: "nat \<Rightarrow> byte list \<Rightarrow> real list \<Rightarrow> race \<Rightarrow> bool" where
  "race_inv n values old s =
     (next_i s \<le> n \<and> next_i s \<le> length values \<and> next_i s \<le> length old
      \<and> stored s = map (\<lambda>b. real (unat b) / 100) (take (next_i s) values) @ drop (next_i s) old
      \<and> length (copy s) \<le> length old
      \<and> (\<forall>j<length (copy s).
            copy s ! j = old ! j
            \<or> j < n \<and> j < length values \<and> copy s ! j = real (unat (values ! j)) / 100))"

text \<open>The devices, streams and PulseAudio of the worked examples.\<close>

abbreviation (input) arduino :: "string \<Rightarrow> byte list \<Rightarrow> byte list \<Rightarrow> comport" where
  "arduino dev g r \<equiv>
     \<lparr>device = dev, subsystem = Some ''usb'', manufacturer = Some ''Arduino (www.arduino.cc)'',
      opens = True, greeting = Inr g, writable = True, reply = Inr r\<rparr>"

abbreviation (input) stream :: "nat \<Rightarrow> string \<Rightarrow> sink_input" where
  "stream k name \<equiv> \<lparr>sink_index = k, application_name = Some name\<rparr>"

abbreviation (input) idle_pulse :: "nat list \<Rightarrow> pulse" where
  "idle_pulse gone \<equiv> \<lparr>event_mask = 9, vanished = gone, requests = [], sink_volume = Map.empty\<rparr>"

section \<open>Properties\<close>

subsection \<open>Discovery and handshake\<close>

lemma length_Hardware_Mixer: "length Hardware_Mixer = 14"
  by (simp add: Hardware_Mixer_def)

lemma short_greeting_differs: "length bs < 14 \<Longrightarrow> take 14 bs \<noteq> Hardware_Mixer"
proof
  assume short: "length bs < 14" and eq: "take 14 bs = Hardware_Mixer"
  from eq have "length (take 14 bs) = 14"
    by (simp only: length_Hardware_Mixer)
  with short show False by simp
qed

text \<open>
  Claim C7. A candidate (a USB port whose manufacturer starts with Arduino, and that
  opens) whose \<^verbatim>\<open>read_all()\<close> returns fewer than 14 bytes, none included, is not
  taken for a mixer: the port is closed and the scan goes on with the ports after it,
  in the \<^verbatim>\<open>for\<close> loop and in the \<^verbatim>\<open>while\<close> loop around it. Alone in a pass it
  ends the pass without an exception.
\<close>

theorem short_preamble_is_skipped:
  assumes "subsystem c = Some ''usb''"
    and "manufacturer c = Some man" and "take 7 man = ''Arduino''"
    and "opens c"
    and "greeting c = Inr bs" and "length bs < 14"
  shows "comports_loop (c # rest) m
           = comports_loop rest (m\<lparr>port := Some (device c), is_open := False\<rparr>)
       \<and> scan_loop ((c # rest) # later) m
           = scan_loop (rest # later) (m\<lparr>port := Some (device c), is_open := False\<rparr>)
       \<and> comports_loop [c] m = Not_found (m\<lparr>port := Some (device c), is_open := False\<rparr>)"
proof -
  from assms(6) have ne: "take 14 bs \<noteq> Hardware_Mixer"
    by (rule short_greeting_differs)
  have step: "comports_loop (c # xs) m
        = comports_loop xs (m\<lparr>port := Some (device c), is_open := False\<rparr>)" for xs
    using assms(1-5) ne by simp
  show ?thesis
    by (simp only: step scan_loop.simps comports_loop.simps(1) simp_thms)
qed

theorem short_preamble_is_skipped_witness:
  "comports_loop
     [\<lparr>device = ''/dev/ttyACM0'', subsystem = Some ''usb'',
       manufacturer = Some ''Arduino LLC'', opens = True,
       greeting = Inr [72, 97, 114], writable = True, reply = Inr [2]\<rparr>] new_mixer
     = Not_found (new_mixer\<lparr>port := Some ''/dev/ttyACM0'', is_open := False\<rparr>)"
  using short_preamble_is_skipped
    [of "\<lparr>device = ''/dev/ttyACM0'', subsystem = Some ''usb'',
       manufacturer = Some ''Arduino LLC'', opens = True,
       greeting = Inr [72, 97, 114], writable = True, reply = Inr [2]\<rparr>"
       "''Arduino LLC''" "[72, 97, 114]" "[]" new_mixer "[]"]
  by simp

text \<open>
  Claim C5. The port is opened without a timeout, so \<^verbatim>\<open>read(1)\<close> hands back one
  byte or raises: a read of the channel count that gets no byte from the device ends
  in \<^verbatim>\<open>SerialException\<close>. \<^verbatim>\<open>_connect_mixer\<close> has no handler around it. The
  exception leaves the method: the mixer on the next port is not tried and the next
  pass is not made.
\<close>

theorem handshake_read_failure_propagates:
  "connect_mixer
     [[\<lparr>device = ''/dev/ttyACM0'', subsystem = Some ''usb'',
        manufacturer = Some ''Arduino (www.arduino.cc)'', opens = True,
        greeting = Inr Hardware_Mixer, writable = True, reply = Inl SerialException\<rparr>,
       arduino ''/dev/ttyACM1'' Hardware_Mixer [2]],
      [arduino ''/dev/ttyACM0'' Hardware_Mixer [2]]]
     new_mixer
   = Some (Inl SerialException)"
  by (simp add: connect_mixer_def Hardware_Mixer_def)

text \<open>The scan goes past ports that are not the mixer, and leaves the volumes alone.\<close>

lemma comports_loop_passed_over:
  "list_all passed_over pre \<Longrightarrow>
     \<exists>m'. comports_loop (pre @ rest) m = comports_loop rest m'
        \<and> volumes m' = volumes m \<and> channels m' = channels m"
proof (induction pre arbitrary: m)
  case Nil
  then show ?case by auto
next
  case (Cons c pre)
  from Cons.prems have c: "passed_over c" and pre: "list_all passed_over pre"
    by simp_all
  from c have "comports_loop ((c # pre) @ rest) m = comports_loop (pre @ rest) m
      \<or> comports_loop ((c # pre) @ rest) m
            = comports_loop (pre @ rest) (m\<lparr>port := Some (device c), is_open := False\<rparr>)"
    by (auto simp: passed_over_def split: option.splits sum.splits if_splits)
  then show ?case
  proof
    assume "comports_loop ((c # pre) @ rest) m = comports_loop (pre @ rest) m"
    with Cons.IH [OF pre, of m] show ?thesis by auto
  next
    assume "comports_loop ((c # pre) @ rest) m
            = comports_loop (pre @ rest) (m\<lparr>port := Some (device c), is_open := False\<rparr>)"
    with Cons.IH [OF pre, of "m\<lparr>port := Some (device c), is_open := False\<rparr>"]
    show ?thesis by auto
  qed
qed

lemma comports_loop_answers:
  "answers c \<Longrightarrow>
     \<exists>r. reply c = Inr r
       \<and> comports_loop (c # rest) m
           = Found (m\<lparr>port := Some (device c), is_open := True, channels := from_bytes_big r\<rparr>)"
  by (auto simp: answers_def split: option.splits sum.splits)

lemma scan_loop_finds:
  assumes "list_all (list_all passed_over) quiet" and "list_all passed_over pre" and "answers c"
  shows "\<exists>m'. scan_loop (quiet @ (pre @ c # post) # later) m = Some (Inr m')
            \<and> volumes m' = volumes m \<and> port m' = Some (device c) \<and> is_open m'"
  using assms(1)
proof (induction quiet arbitrary: m)
  case Nil
  from comports_loop_passed_over [OF assms(2), of "c # post" m]
  obtain m1 where m1: "comports_loop (pre @ c # post) m = comports_loop (c # post) m1"
    "volumes m1 = volumes m" by auto
  from comports_loop_answers [OF assms(3), of post m1]
  obtain r where "comports_loop (c # post) m1
           = Found (m1\<lparr>port := Some (device c), is_open := True, channels := from_bytes_big r\<rparr>)"
    by auto
  with m1 show ?case by simp
next
  case (Cons ports quiet)
  from Cons.prems have p: "list_all passed_over ports" and q: "list_all (list_all passed_over) quiet"
    by simp_all
  from comports_loop_passed_over [OF p, of "[]" m]
  obtain m1 where m1: "comports_loop ports m = Not_found m1" "volumes m1 = volumes m"
    by auto
  from Cons.IH [OF q, of m1] m1 show ?case by simp
qed

lemma comports_loop_keeps_volumes:
  "comports_loop cs m = Found m' \<or> comports_loop cs m = Not_found m'
     \<Longrightarrow> volumes m' = volumes m"
proof (induction cs arbitrary: m)
  case Nil
  then show ?case by simp
next
  case (Cons c cs)
  show ?case
  proof (cases "comports_loop (c # cs) m = comports_loop cs m
       \<or> comports_loop (c # cs) m
             = comports_loop cs (m\<lparr>port := Some (device c), is_open := False\<rparr>)")
    case True
    then show ?thesis
    proof
      assume "comports_loop (c # cs) m = comports_loop cs m"
      with Cons.prems Cons.IH [of m] show ?thesis by simp
    next
      assume "comports_loop (c # cs) m
             = comports_loop cs (m\<lparr>port := Some (device c), is_open := False\<rparr>)"
      with Cons.prems Cons.IH [of "m\<lparr>port := Some (device c), is_open := False\<rparr>"]
      show ?thesis by simp
    qed
  next
    case False
    with Cons.prems show ?thesis
      by (auto split: option.splits sum.splits if_splits)
  qed
qed

lemma scan_loop_keeps_volumes:
  "scan_loop passes m = Some (Inr m') \<Longrightarrow> volumes m' = volumes m"
proof (induction passes arbitrary: m)
  case Nil
  then show ?case by simp
next
  case (Cons ports later)
  show ?case
  proof (cases "comports_loop ports m")
    case (Found m1)
    with Cons.prems comports_loop_keeps_volumes [of ports m m1] show ?thesis by simp
  next
    case (Not_found m1)
    with Cons.prems comports_loop_keeps_volumes [of ports m m1] Cons.IH [of m1]
    show ?thesis by simp
  next
    case (Raised e)
    with Cons.prems show ?thesis by simp
  qed
qed

lemma connect_mixer_keeps_volumes:
  "connect_mixer passes m = Some (Inr m') \<Longrightarrow> volumes m' = volumes m"
  using scan_loop_keeps_volumes [of passes "m\<lparr>is_open := False\<rparr>" m']
  by (simp add: connect_mixer_def)

subsection \<open>Reading a frame\<close>

lemma write_prefix:
  assumes "i < length values" and "i < length old"
  shows "(map f (take i values) @ drop i old)[i := f (values ! i)]
       = map f (take (Suc i) values) @ drop (Suc i) old"
proof -
  have len: "length (map f (take i values)) = i"
    using assms(1) by simp
  have "(map f (take i values) @ drop i old)[i := f (values ! i)]
      = map f (take i values) @ (drop i old)[0 := f (values ! i)]"
    using len by (simp add: list_update_append)
  also have "(drop i old)[0 := f (values ! i)] = f (values ! i) # drop (Suc i) old"
    using assms(2) by (simp add: Cons_nth_drop_Suc [symmetric])
  also have "map f (take i values) @ f (values ! i) # drop (Suc i) old
      = map f (take (Suc i) values) @ drop (Suc i) old"
    using assms(1) by (simp add: take_Suc_conv_app_nth)
  finally show ?thesis .
qed

lemma volumes_loop_as_run:
  assumes "n \<le> length values" and "n \<le> length vols"
  shows "volumes_loop [0..<n] values vols
       = Inr (map (\<lambda>b. real (unat b) / 100) (take n values) @ drop n vols)"
proof -
  have "k \<le> n \<Longrightarrow> n - k = d \<Longrightarrow>
        volumes_loop [k..<n] values
            (map (\<lambda>b. real (unat b) / 100) (take k values) @ drop k vols)
          = Inr (map (\<lambda>b. real (unat b) / 100) (take n values) @ drop n vols)" for k d
  proof (induction d arbitrary: k)
    case 0
    then show ?case by simp
  next
    case (Suc d)
    then have lt: "k < n" by simp
    with assms have kv: "k < length values" "k < length vols" by simp_all
    from Suc.prems have "volumes_loop [Suc k..<n] values
            (map (\<lambda>b. real (unat b) / 100) (take (Suc k) values) @ drop (Suc k) vols)
          = Inr (map (\<lambda>b. real (unat b) / 100) (take n values) @ drop n vols)"
      by (intro Suc.IH) simp_all
    moreover have "(map (\<lambda>b. real (unat b) / 100) (take k values) @ drop k vols)
            [k := real (unat (values ! k)) / 100]
        = map (\<lambda>b. real (unat b) / 100) (take (Suc k) values) @ drop (Suc k) vols"
      using kv by (rule write_prefix)
    moreover have "[k..<n] = k # [Suc k..<n]"
      using lt by (rule upt_conv_Cons)
    moreover have "k < length (map (\<lambda>b. real (unat b) / 100) (take k values) @ drop k vols)"
      using kv by simp
    ultimately show ?case
      using kv(1) by (simp only: volumes_loop.simps if_True)
  qed
  from this [of 0 n] show ?thesis by simp
qed

lemma volumes_loop_length:
  "volumes_loop idxs values vols = Inr vols' \<Longrightarrow> length vols' = length vols"
  by (induction idxs "values" vols rule: volumes_loop.induct) (auto split: if_splits)

text \<open>A frame of as many bytes as there are channels is decoded into the first
  items of the list, as long as the list has that many items; a byte up to 100 gives
  a volume between 0 and 1.\<close>

lemma read_volumes_stores:
  assumes "length values = channels m" and "channels m \<le> length (volumes m)"
  shows "read_volumes (Inr values) passes m
       = Some (Inr (m\<lparr>volumes := map (\<lambda>b. real (unat b) / 100) values
                                  @ drop (channels m) (volumes m)\<rparr>))"
  using assms volumes_loop_as_run [of "channels m" "values" "volumes m"]
  by (simp add: read_volumes_def)

lemma decoded_in_unit_interval:
  "b \<le> (100 :: byte) \<Longrightarrow> 0 \<le> real (unat b) / 100 \<and> real (unat b) / 100 \<le> 1"
proof -
  assume "b \<le> (100 :: byte)"
  then have "unat b \<le> 100"
    by (simp add: word_le_nat_alt)
  then have "real (unat b) \<le> 100"
    by linarith
  then show ?thesis
    by (simp only: divide_le_eq_1_pos zero_le_divide_iff of_nat_0_le_iff) simp
qed

lemma two_channel_frame:
  "(case Mixer_init [[arduino ''/dev/ttyACM0'' Hardware_Mixer [2]]] (Inr [50, 80]) [] of
      Some (Inr m) \<Rightarrow> get_volumes m
    | _ \<Rightarrow> []) = [1 / 2, 4 / 5]"
  by (simp add: Mixer_init_def read_volumes_def connect_mixer_def new_mixer_def
      Hardware_Mixer_def from_bytes_big_def get_volumes_def upt_rec)

text \<open>
  Claim C2. The list of volumes is the two-item list of \<^verbatim>\<open>__init__\<close> whatever
  channel count the mixer reports. With channel count 3 and the frame 10, 20, 30 the
  third assignment raises \<^verbatim>\<open>IndexError\<close>: the volume of the third channel is
  never stored and \<^verbatim>\<open>read_volumes\<close> does not return.
\<close>

theorem three_channel_frame_raises:
  "Mixer_init [[arduino ''/dev/ttyACM0'' Hardware_Mixer [3]]] (Inr [10, 20, 30]) []
     = Some (Inl IndexError)"
  by (simp add: Mixer_init_def read_volumes_def connect_mixer_def new_mixer_def
      Hardware_Mixer_def from_bytes_big_def upt_rec)

text \<open>
  Claim C4. The list keeps its two items. A first connection that reports one channel
  leaves two volumes; a reconnect that goes from two channels to one keeps the list,
  and the next frame overwrites its first item only, so the second keeps the value of
  the old connection.
\<close>

theorem channel_count_does_not_resize:
  "Mixer_init [[arduino ''/dev/ttyACM0'' Hardware_Mixer [1]]] (Inr [50]) []
     = Some (Inr \<lparr>volumes = [1 / 2, 0], port = Some ''/dev/ttyACM0'', is_open = True,
                    channels = 1\<rparr>)
   \<and> read_volumes (Inl SerialException) [[arduino ''/dev/ttyACM1'' Hardware_Mixer [1]]]
       \<lparr>volumes = [1 / 2, 4 / 5], port = Some ''/dev/ttyACM0'', is_open = True, channels = 2\<rparr>
     = Some (Inr \<lparr>volumes = [1 / 2, 4 / 5], port = Some ''/dev/ttyACM1'', is_open = True,
                    channels = 1\<rparr>)
   \<and> read_volumes (Inr [30]) []
       \<lparr>volumes = [1 / 2, 4 / 5], port = Some ''/dev/ttyACM1'', is_open = True, channels = 1\<rparr>
     = Some (Inr \<lparr>volumes = [3 / 10, 4 / 5], port = Some ''/dev/ttyACM1'', is_open = True,
                    channels = 1\<rparr>)"
  by (simp add: Mixer_init_def read_volumes_def connect_mixer_def new_mixer_def
      Hardware_Mixer_def from_bytes_big_def)

lemma read_volumes_keeps_length:
  "read_volumes rd passes m = Some (Inr m') \<Longrightarrow> length (volumes m') = length (volumes m)"
proof (cases rd)
  case (Inl e)
  assume "read_volumes rd passes m = Some (Inr m')"
  with Inl have "connect_mixer passes m = Some (Inr m')"
    by (simp add: read_volumes_def split: if_splits)
  then show ?thesis
    by (simp add: connect_mixer_keeps_volumes)
next
  case (Inr frame)
  assume "read_volumes rd passes m = Some (Inr m')"
  with Inr obtain vols where "volumes_loop [0..<channels m] frame (volumes m) = Inr vols"
    and "m' = m\<lparr>volumes := vols\<rparr>"
    by (auto simp: read_volumes_def split: sum.splits)
  then show ?thesis
    by (simp add: volumes_loop_length)
qed

lemma Mixer_init_two_volumes:
  "Mixer_init passes rd passes' = Some (Inr m) \<Longrightarrow> length (volumes m) = 2"
proof -
  assume init: "Mixer_init passes rd passes' = Some (Inr m)"
  then obtain m1 where c: "connect_mixer passes new_mixer = Some (Inr m1)"
    and r: "read_volumes rd passes' m1 = Some (Inr m)"
    by (auto simp: Mixer_init_def split: option.splits sum.splits)
  from c have "volumes m1 = volumes new_mixer"
    by (rule connect_mixer_keeps_volumes)
  with r show ?thesis
    by (simp add: read_volumes_keeps_length new_mixer_def)
qed

text \<open>
  When the read raises \<^verbatim>\<open>SerialException\<close>, \<^verbatim>\<open>read_volumes\<close> does what
  \<^verbatim>\<open>_connect_mixer\<close> does and reads no frame: whenever it returns, the volumes
  are those from before the call. It does return, with the volumes as they were, once
  a mixer answers after passes and ports that the scan goes past.
\<close>

lemma transport_error_keeps_volumes:
  "(\<forall>m'. read_volumes (Inl SerialException) passes m = Some (Inr m')
          \<longrightarrow> get_volumes m' = get_volumes m)
   \<and> (list_all (list_all passed_over) quiet \<and> list_all passed_over pre \<and> answers c \<longrightarrow>
        (\<exists>m'. read_volumes (Inl SerialException) (quiet @ (pre @ c # post) # later) m = Some (Inr m')
            \<and> get_volumes m' = get_volumes m \<and> port m' = Some (device c) \<and> is_open m'))"
proof (intro conjI allI impI)
  fix m'
  assume "read_volumes (Inl SerialException) passes m = Some (Inr m')"
  then have "connect_mixer passes m = Some (Inr m')"
    by (simp add: read_volumes_def)
  then show "get_volumes m' = get_volumes m"
    by (simp add: get_volumes_def connect_mixer_keeps_volumes)
next
  assume h: "list_all (list_all passed_over) quiet \<and> list_all passed_over pre \<and> answers c"
  then have "\<exists>m'. scan_loop (quiet @ (pre @ c # post) # later) (m\<lparr>is_open := False\<rparr>) = Some (Inr m')
            \<and> volumes m' = volumes (m\<lparr>is_open := False\<rparr>) \<and> port m' = Some (device c) \<and> is_open m'"
    by (intro scan_loop_finds) simp_all
  then show "\<exists>m'. read_volumes (Inl SerialException) (quiet @ (pre @ c # post) # later) m = Some (Inr m')
            \<and> get_volumes m' = get_volumes m \<and> port m' = Some (device c) \<and> is_open m'"
    by (simp add: read_volumes_def connect_mixer_def get_volumes_def)
qed

lemma transport_error_keeps_volumes_example:
  "list_all (list_all passed_over) [[]]
   \<and> list_all passed_over [arduino ''/dev/ttyACM0'' [1, 2, 3] []]
   \<and> answers (arduino ''/dev/ttyACM1'' Hardware_Mixer [2])
   \<and> read_volumes (Inl SerialException)
         [[], [arduino ''/dev/ttyACM0'' [1, 2, 3] [], arduino ''/dev/ttyACM1'' Hardware_Mixer [2]]]
         \<lparr>volumes = [1 / 2, 4 / 5], port = Some ''/dev/ttyACM1'', is_open = True, channels = 2\<rparr>
       = Some (Inr \<lparr>volumes = [1 / 2, 4 / 5], port = Some ''/dev/ttyACM1'', is_open = True,
                      channels = 2\<rparr>)"
  using transport_error_keeps_volumes
    [of "[]" "\<lparr>volumes = [1 / 2, 4 / 5], port = Some ''/dev/ttyACM1'', is_open = True, channels = 2\<rparr>"
        "[[]]" "[arduino ''/dev/ttyACM0'' [1, 2, 3] []]"
        "arduino ''/dev/ttyACM1'' Hardware_Mixer [2]" "[]" "[]"]
  by (simp add: passed_over_def answers_def Hardware_Mixer_def read_volumes_def
      connect_mixer_def from_bytes_big_def)

text \<open>
  Claim C10. A call of \<^verbatim>\<open>read_volumes\<close> whose read raises \<^verbatim>\<open>SerialException\<close>
  returns with the volumes it had when the mixer is found again and answers. It does
  not return when the reconnect itself fails: the mixer is found, greets, and the
  write of the handshake byte raises; \<^verbatim>\<open>_connect_mixer\<close> is called from the handler,
  outside the \<^verbatim>\<open>try\<close>, and the exception leaves \<^verbatim>\<open>read_volumes\<close>.
\<close>

theorem transport_error_call_can_raise:
  "read_volumes (Inl SerialException) [[arduino ''/dev/ttyACM0'' Hardware_Mixer [2]]]
     \<lparr>volumes = [1 / 2, 4 / 5], port = Some ''/dev/ttyACM0'', is_open = True, channels = 2\<rparr>
   = Some (Inr \<lparr>volumes = [1 / 2, 4 / 5], port = Some ''/dev/ttyACM0'', is_open = True,
                  channels = 2\<rparr>)
   \<and> read_volumes (Inl SerialException)
       [[\<lparr>device = ''/dev/ttyACM0'', subsystem = Some ''usb'',
          manufacturer = Some ''Arduino (www.arduino.cc)'', opens = True,
          greeting = Inr Hardware_Mixer, writable = False, reply = Inr [2]\<rparr>]]
       \<lparr>volumes = [1 / 2, 4 / 5], port = Some ''/dev/ttyACM0'', is_open = True, channels = 2\<rparr>
     = Some (Inl SerialException)"
  by (simp add: read_volumes_def connect_mixer_def Hardware_Mixer_def from_bytes_big_def)

subsection \<open>Routing\<close>

lemma list_get_nat: "list_get xs (int k) = (if k < length xs then Inr (xs ! k) else Inl IndexError)"
  by (simp add: list_get_def)

lemma list_get_error: "list_get xs i = Inl e \<Longrightarrow> e = IndexError"
  by (auto simp: list_get_def split: if_splits)

lemma list_index_first:
  "k < length xs \<Longrightarrow> xs ! k = x \<Longrightarrow> \<forall>j<k. xs ! j \<noteq> x \<Longrightarrow> list_index x xs = Inr k"
proof (induction xs arbitrary: k)
  case Nil
  then show ?case by simp
next
  case (Cons y ys)
  show ?case
  proof (cases k)
    case 0
    with Cons.prems show ?thesis by simp
  next
    case (Suc k')
    with Cons.prems have "y \<noteq> x" by auto
    moreover from Suc Cons.prems have "list_index x ys = Inr k'"
      by (intro Cons.IH) auto
    ultimately show ?thesis using Suc by simp
  qed
qed

lemma list_index_absent: "x \<notin> set xs \<Longrightarrow> list_index x xs = Inl ValueError"
  by (induction xs) auto

lemma channels_loop_first_match:
  "k < length chans \<Longrightarrow> app \<in> set (chans ! k) \<Longrightarrow> \<forall>j<k. app \<notin> set (chans ! j) \<Longrightarrow>
     channels_loop any_c vols p sink app i chans
       = (case list_get vols (int (i + k)) of
            Inl e \<Rightarrow> (Some e, p)
          | Inr v \<Rightarrow> volume_set_all_chans p sink v)"
proof (induction chans arbitrary: i k)
  case Nil
  then show ?case by simp
next
  case (Cons channel_apps rest)
  show ?case
  proof (cases k)
    case 0
    with Cons.prems show ?thesis by simp
  next
    case (Suc k')
    with Cons.prems have miss: "app \<notin> set channel_apps" by auto
    from Suc Cons.prems have "channels_loop any_c vols p sink app (Suc i) rest
       = (case list_get vols (int (Suc i + k')) of
            Inl e \<Rightarrow> (Some e, p)
          | Inr v \<Rightarrow> volume_set_all_chans p sink v)"
      by (intro Cons.IH) auto
    with miss Suc show ?thesis by simp
  qed
qed

lemma channels_loop_no_match:
  "\<forall>e\<in>set chans. app \<notin> set e \<Longrightarrow>
     channels_loop any_c vols p sink app i chans
       = (case any_c of
            None \<Rightarrow> (None, p)
          | Some c \<Rightarrow>
              (case list_get vols (c - 1) of
                 Inl e \<Rightarrow> (Some e, p)
               | Inr v \<Rightarrow> volume_set_all_chans p sink v))"
  by (induction chans arbitrary: i) simp_all

lemma swallowed:
  "(case volume_set_all_chans p sink v of
      (None, p') \<Rightarrow> (None, p')
    | (Some e, p') \<Rightarrow> if e = PulseOperationFailed then (None, p') else (Some e, p'))
   = (None, snd (volume_set_all_chans p sink v))"
  by (simp add: volume_set_all_chans_def)

lemma channels_loop_cases:
  "channels_loop any_c vols p sink app i chans = (Some IndexError, p)
   \<or> channels_loop any_c vols p sink app i chans = (None, p)
   \<or> (\<exists>v. channels_loop any_c vols p sink app i chans = volume_set_all_chans p sink v)"
proof (induction chans arbitrary: i)
  case Nil
  show ?case
    by (auto split: option.splits sum.splits dest: list_get_error)
next
  case (Cons channel_apps rest)
  show ?case
  proof (cases "app \<in> set channel_apps")
    case True
    then show ?thesis
      by (auto split: sum.splits dest: list_get_error)
  next
    case False
    with Cons.IH [of "Suc i"] show ?thesis by simp
  qed
qed

lemma listen_sink_cases:
  "listen_sink chans any_c vols p sink = (Some IndexError, p)
   \<or> listen_sink chans any_c vols p sink = (None, p)
   \<or> (\<exists>v. listen_sink chans any_c vols p sink = (None, snd (volume_set_all_chans p sink v))
          \<and> application_name sink \<noteq> None \<and> application_name sink \<noteq> Some [])"
proof (cases "application_name sink")
  case None
  then show ?thesis by (simp add: listen_sink_def)
next
  case (Some app)
  show ?thesis
  proof (cases "app = []")
    case True
    with Some show ?thesis by (simp add: listen_sink_def)
  next
    case False
    from channels_loop_cases [of any_c vols p sink app 0 chans]
    show ?thesis
    proof (elim disjE exE)
      assume "channels_loop any_c vols p sink app 0 chans = (Some IndexError, p)"
      with Some False show ?thesis by (simp add: listen_sink_def)
    next
      assume "channels_loop any_c vols p sink app 0 chans = (None, p)"
      with Some False show ?thesis by (simp add: listen_sink_def)
    next
      fix v
      assume "channels_loop any_c vols p sink app 0 chans = volume_set_all_chans p sink v"
      with Some False
      have "listen_sink chans any_c vols p sink = (None, snd (volume_set_all_chans p sink v))"
        by (simp add: listen_sink_def swallowed)
      with Some False show ?thesis by auto
    qed
  qed
qed

lemma requests_volume_set:
  "requests (snd (volume_set_all_chans p sink v)) = requests p @ [(sink_index sink, v)]"
  by (simp add: volume_set_all_chans_def)

lemma volume_set_vanished:
  "sink_index sink \<in> set (vanished p) \<Longrightarrow>
     sink_volume (snd (volume_set_all_chans p sink v)) = sink_volume p"
  by (simp add: volume_set_all_chans_def)

lemma empty_name_is_skipped:
  "application_name sink = Some [] \<Longrightarrow> listen_sink chans any_c vols p sink = (None, p)"
  by (simp add: listen_sink_def)

text \<open>
  \<^verbatim>\<open>if not app_name\<close> is true of the empty string as well as of \<^verbatim>\<open>None\<close>: a
  stream whose application name is there and empty gets no volume, though the table
  has a catch-all entry.
\<close>

theorem empty_name_counterexample:
  "any_controller [[''Music Player''], [''ANY'']] = Some 2
   \<and> listen_sink [[''Music Player''], [''ANY'']] (any_controller [[''Music Player''], [''ANY'']])
        [3 / 10, 9 / 10] (idle_pulse []) \<lparr>sink_index = 2, application_name = Some ''''\<rparr>
     = (None, idle_pulse [])"
  by (simp add: any_controller_def listen_sink_def)

text \<open>
  Claim C1, for a name that is not empty. The stream gets the volume at the position
  of the first entry of the table that holds its name; when no entry holds the name
  it gets the volume at the position of the first entry that is \<^verbatim>\<open>["ANY"]\<close>; when
  there is no such entry either its volume is not touched. Getting the volume means
  that \<^verbatim>\<open>volume_set_all_chans\<close> is called with it, and a failure of the call is
  not passed on. The position is taken to lie within the list of volumes.
\<close>

theorem routing_first_match_then_catch_all:
  assumes "application_name sink = Some app" and "app \<noteq> []"
  shows "(\<forall>k. k < length chans \<and> app \<in> set (chans ! k) \<and> (\<forall>j<k. app \<notin> set (chans ! j))
              \<and> k < length vols \<longrightarrow>
            listen_sink chans (any_controller chans) vols p sink
              = (None, snd (volume_set_all_chans p sink (vols ! k))))
       \<and> (\<forall>k. (\<forall>e\<in>set chans. app \<notin> set e)
              \<and> k < length chans \<and> chans ! k = [''ANY''] \<and> (\<forall>j<k. chans ! j \<noteq> [''ANY''])
              \<and> k < length vols \<longrightarrow>
            listen_sink chans (any_controller chans) vols p sink
              = (None, snd (volume_set_all_chans p sink (vols ! k))))
       \<and> ((\<forall>e\<in>set chans. app \<notin> set e) \<and> [''ANY''] \<notin> set chans \<longrightarrow>
            listen_sink chans (any_controller chans) vols p sink = (None, p))"
proof (intro conjI allI impI)
  fix k
  assume h: "k < length chans \<and> app \<in> set (chans ! k) \<and> (\<forall>j<k. app \<notin> set (chans ! j))
              \<and> k < length vols"
  then have "channels_loop (any_controller chans) vols p sink app 0 chans
       = volume_set_all_chans p sink (vols ! k)"
    by (simp add: channels_loop_first_match [of k] list_get_nat)
  with assms show "listen_sink chans (any_controller chans) vols p sink
              = (None, snd (volume_set_all_chans p sink (vols ! k)))"
    by (simp add: listen_sink_def swallowed)
next
  fix k
  assume h: "(\<forall>e\<in>set chans. app \<notin> set e)
              \<and> k < length chans \<and> chans ! k = [''ANY''] \<and> (\<forall>j<k. chans ! j \<noteq> [''ANY''])
              \<and> k < length vols"
  then have "list_index [''ANY''] chans = Inr k"
    by (intro list_index_first) auto
  then have "any_controller chans = Some (int k + 1)"
    by (simp add: any_controller_def)
  with h have "channels_loop (any_controller chans) vols p sink app 0 chans
       = volume_set_all_chans p sink (vols ! k)"
    by (simp add: channels_loop_no_match list_get_nat)
  with assms show "listen_sink chans (any_controller chans) vols p sink
              = (None, snd (volume_set_all_chans p sink (vols ! k)))"
    by (simp add: listen_sink_def swallowed)
next
  assume h: "(\<forall>e\<in>set chans. app \<notin> set e) \<and> [''ANY''] \<notin> set chans"
  then have "any_controller chans = None"
    by (simp add: any_controller_def list_index_absent)
  with h have "channels_loop (any_controller chans) vols p sink app 0 chans = (None, p)"
    by (simp add: channels_loop_no_match)
  with assms show "listen_sink chans (any_controller chans) vols p sink = (None, p)"
    by (simp add: listen_sink_def)
qed

theorem routing_first_match_then_catch_all_witness:
  "requests (snd (listen_sink [[''Music Player''], [''ANY'']]
        (any_controller [[''Music Player''], [''ANY'']]) [3 / 10, 9 / 10] (idle_pulse [])
        (stream 1 ''Music Player''))) = [(1, 3 / 10)]
   \<and> requests (snd (listen_sink [[''Music Player''], [''ANY'']]
        (any_controller [[''Music Player''], [''ANY'']]) [3 / 10, 9 / 10] (idle_pulse [])
        (stream 2 ''Browser''))) = [(2, 9 / 10)]
   \<and> listen_sink [[''Music Player'']] (any_controller [[''Music Player'']]) [3 / 10, 9 / 10]
        (idle_pulse []) (stream 2 ''Browser'') = (None, idle_pulse [])"
proof -
  have a: "requests (snd (listen_sink [[''Music Player''], [''ANY'']]
        (any_controller [[''Music Player''], [''ANY'']]) [3 / 10, 9 / 10] (idle_pulse [])
        (stream 1 ''Music Player''))) = [(1, 3 / 10)]"
    using routing_first_match_then_catch_all
      [where sink = "stream 1 ''Music Player''" and app = "''Music Player''"
         and chans = "[[''Music Player''], [''ANY'']]" and vols = "[3 / 10, 9 / 10]"
         and p = "idle_pulse []", THEN conjunct1, rule_format, of 0]
    by (simp add: volume_set_all_chans_def)
  have b: "requests (snd (listen_sink [[''Music Player''], [''ANY'']]
        (any_controller [[''Music Player''], [''ANY'']]) [3 / 10, 9 / 10] (idle_pulse [])
        (stream 2 ''Browser''))) = [(2, 9 / 10)]"
    using routing_first_match_then_catch_all
      [where sink = "stream 2 ''Browser''" and app = "''Browser''"
         and chans = "[[''Music Player''], [''ANY'']]" and vols = "[3 / 10, 9 / 10]"
         and p = "idle_pulse []", THEN conjunct2, THEN conjunct1, rule_format, of 1]
    by (simp add: volume_set_all_chans_def less_Suc_eq)
  have c: "listen_sink [[''Music Player'']] (any_controller [[''Music Player'']]) [3 / 10, 9 / 10]
        (idle_pulse []) (stream 2 ''Browser'') = (None, idle_pulse [])"
    using routing_first_match_then_catch_all
      [where sink = "stream 2 ''Browser''" and app = "''Browser''"
         and chans = "[[''Music Player'']]" and vols = "[3 / 10, 9 / 10]"
         and p = "idle_pulse []", THEN conjunct2, THEN conjunct2]
    by simp
  from a b c show ?thesis by (intro conjI)
qed

lemma sinks_loop_never_pulse_error:
  "fst (sinks_loop chans any_c vols p sinks) \<noteq> Some PulseOperationFailed"
proof (induction sinks arbitrary: p)
  case Nil
  show ?case by simp
next
  case (Cons sink rest)
  from listen_sink_cases [of chans any_c vols p sink]
  show ?case
  proof (elim disjE exE conjE)
    assume "listen_sink chans any_c vols p sink = (Some IndexError, p)"
    then show ?thesis by simp
  next
    assume "listen_sink chans any_c vols p sink = (None, p)"
    with Cons.IH [of p] show ?thesis by simp
  next
    fix v
    assume "listen_sink chans any_c vols p sink = (None, snd (volume_set_all_chans p sink v))"
    with Cons.IH [of "snd (volume_set_all_chans p sink v)"] show ?thesis by simp
  qed
qed

text \<open>
  Claim C8. When a call of \<^verbatim>\<open>volume_set_all_chans\<close> is made for a stream that is
  gone, the exception does not leave the body of the loop: the volume of the stream
  stays as it was, the call is all that happened, and the loop goes on with the
  streams after it. No pass over the streams ends in \<^verbatim>\<open>PulseOperationFailed\<close>.
\<close>

theorem vanished_stream_is_skipped:
  assumes "sink_index sink \<in> set (vanished p)"
    and "listen_sink chans any_c vols p sink = (e, p')"
    and "requests p' \<noteq> requests p"
  shows "e = None
       \<and> sink_volume p' = sink_volume p
       \<and> (\<exists>v. requests p' = requests p @ [(sink_index sink, v)])
       \<and> sinks_loop chans any_c vols p (sink # rest) = sinks_loop chans any_c vols p' rest
       \<and> fst (sinks_loop chans any_c vols p (sink # rest)) \<noteq> Some PulseOperationFailed"
proof -
  from listen_sink_cases [of chans any_c vols p sink] assms(2,3)
  obtain v where v: "listen_sink chans any_c vols p sink
      = (None, snd (volume_set_all_chans p sink v))"
    by auto
  with assms(2) have e: "e = None" and p': "p' = snd (volume_set_all_chans p sink v)"
    by simp_all
  from p' assms(1) have "sink_volume p' = sink_volume p"
    by (simp add: volume_set_vanished)
  moreover from p' have "requests p' = requests p @ [(sink_index sink, v)]"
    by (simp add: requests_volume_set)
  moreover from assms(2) e
  have "sinks_loop chans any_c vols p (sink # rest) = sinks_loop chans any_c vols p' rest"
    by simp
  ultimately show ?thesis
    using e sinks_loop_never_pulse_error [of chans any_c vols p "sink # rest"] by blast
qed

theorem vanished_stream_is_skipped_witness:
  "listen_sink [[''Music Player''], [''ANY'']] (Some 2) [3 / 10, 9 / 10] (idle_pulse [2])
        (stream 2 ''Browser'')
     = (None, (idle_pulse [2])\<lparr>requests := [(2, 9 / 10)]\<rparr>)
   \<and> sinks_loop [[''Music Player''], [''ANY'']] (Some 2) [3 / 10, 9 / 10] (idle_pulse [2])
        [stream 2 ''Browser'', stream 1 ''Music Player'']
     = sinks_loop [[''Music Player''], [''ANY'']] (Some 2) [3 / 10, 9 / 10]
        ((idle_pulse [2])\<lparr>requests := [(2, 9 / 10)]\<rparr>) [stream 1 ''Music Player'']
   \<and> sink_volume (snd (sinks_loop [[''Music Player''], [''ANY'']] (Some 2) [3 / 10, 9 / 10]
        (idle_pulse [2]) [stream 2 ''Browser'', stream 1 ''Music Player''])) 1 = Some (3 / 10)"
proof -
  have ls: "listen_sink [[''Music Player''], [''ANY'']] (Some 2) [3 / 10, 9 / 10] (idle_pulse [2])
        (stream 2 ''Browser'')
     = (None, (idle_pulse [2])\<lparr>requests := [(2, 9 / 10)]\<rparr>)"
    by (simp add: listen_sink_def volume_set_all_chans_def list_get_def)
  have "sinks_loop [[''Music Player''], [''ANY'']] (Some 2) [3 / 10, 9 / 10] (idle_pulse [2])
        [stream 2 ''Browser'', stream 1 ''Music Player'']
     = sinks_loop [[''Music Player''], [''ANY'']] (Some 2) [3 / 10, 9 / 10]
        ((idle_pulse [2])\<lparr>requests := [(2, 9 / 10)]\<rparr>) [stream 1 ''Music Player'']"
    using vanished_stream_is_skipped
      [where sink = "stream 2 ''Browser''" and p = "idle_pulse [2]"
         and chans = "[[''Music Player''], [''ANY'']]" and any_c = "Some 2"
         and vols = "[3 / 10, 9 / 10]" and e = None
         and p' = "(idle_pulse [2])\<lparr>requests := [(2, 9 / 10)]\<rparr>"
         and rest = "[stream 1 ''Music Player'']", OF _ ls]
    by simp
  moreover have "sink_volume (snd (sinks_loop [[''Music Player''], [''ANY'']] (Some 2) [3 / 10, 9 / 10]
        (idle_pulse [2]) [stream 2 ''Browser'', stream 1 ''Music Player''])) 1 = Some (3 / 10)"
    by (simp add: listen_sink_def volume_set_all_chans_def list_get_def)
  ultimately show ?thesis using ls by (intro conjI)
qed

lemma sinks_loop_requests:
  "filter (\<lambda>r. fst r = k) (requests (snd (sinks_loop chans any_c vols p sinks)))
     = filter (\<lambda>r. fst r = k) (requests p)"
  if "\<forall>s\<in>set sinks. sink_index s = k \<longrightarrow> application_name s = None"
  using that
proof (induction sinks arbitrary: p)
  case Nil
  show ?case by simp
next
  case (Cons sink rest)
  from Cons.prems have rest: "\<forall>s\<in>set rest. sink_index s = k \<longrightarrow> application_name s = None"
    by simp
  from listen_sink_cases [of chans any_c vols p sink]
  show ?case
  proof (elim disjE exE conjE)
    assume "listen_sink chans any_c vols p sink = (Some IndexError, p)"
    then show ?thesis by simp
  next
    assume "listen_sink chans any_c vols p sink = (None, p)"
    with Cons.IH [OF rest, of p] show ?thesis by simp
  next
    fix v
    assume ls: "listen_sink chans any_c vols p sink = (None, snd (volume_set_all_chans p sink v))"
      and named: "application_name sink \<noteq> None"
    from named Cons.prems have "sink_index sink \<noteq> k" by auto
    then have "filter (\<lambda>r. fst r = k) (requests (snd (volume_set_all_chans p sink v)))
        = filter (\<lambda>r. fst r = k) (requests p)"
      by (simp add: requests_volume_set)
    with ls Cons.IH [OF rest, of "snd (volume_set_all_chans p sink v)"]
    show ?thesis by simp
  qed
qed

text \<open>
  Claim C9. For a stream without an application name the body of the loop does
  nothing and the loop goes on; and over a whole pass of \<^verbatim>\<open>listen\<close>, the calls of
  \<^verbatim>\<open>volume_set_all_chans\<close> for the index of that stream are those made before the
  pass.
\<close>

theorem unnamed_stream_gets_no_call:
  assumes "application_name sink = None"
  shows "listen_sink chans any_c vols p sink = (None, p)
       \<and> sinks_loop chans any_c vols p (sink # rest) = sinks_loop chans any_c vols p rest
       \<and> ((\<forall>s\<in>set sinks. sink_index s = sink_index sink \<longrightarrow> application_name s = None) \<longrightarrow>
            filter (\<lambda>r. fst r = sink_index sink)
                (requests (snd (listen_iteration chans any_c mx sinks p)))
              = filter (\<lambda>r. fst r = sink_index sink) (requests p))"
proof (intro conjI impI)
  from assms show ls: "listen_sink chans any_c vols p sink = (None, p)"
    by (simp add: listen_sink_def)
  then show "sinks_loop chans any_c vols p (sink # rest) = sinks_loop chans any_c vols p rest"
    by simp
next
  assume h: "\<forall>s\<in>set sinks. sink_index s = sink_index sink \<longrightarrow> application_name s = None"
  have "requests (snd (listen_iteration chans any_c mx sinks p))
      = requests (snd (sinks_loop chans any_c (get_volumes mx) (p\<lparr>event_mask := 8\<rparr>) sinks))"
    by (simp add: listen_iteration_def split: prod.splits option.splits)
  with sinks_loop_requests [OF h, of chans any_c "get_volumes mx" "p\<lparr>event_mask := 8\<rparr>"]
  show "filter (\<lambda>r. fst r = sink_index sink)
                (requests (snd (listen_iteration chans any_c mx sinks p)))
              = filter (\<lambda>r. fst r = sink_index sink) (requests p)"
    by simp
qed

theorem unnamed_stream_gets_no_call_witness:
  "listen_sink [[''Music Player''], [''ANY'']] (Some 2) [3 / 10, 9 / 10] (idle_pulse [])
        \<lparr>sink_index = 3, application_name = None\<rparr> = (None, idle_pulse [])
   \<and> filter (\<lambda>r. fst r = 3)
        (requests (snd (listen_iteration [[''Music Player''], [''ANY'']] (Some 2)
           \<lparr>volumes = [3 / 10, 9 / 10], port = None, is_open = True, channels = 2\<rparr>
           [stream 1 ''Music Player'', \<lparr>sink_index = 3, application_name = None\<rparr>,
            stream 2 ''Browser'']
           (idle_pulse [])))) = []"
  using unnamed_stream_gets_no_call
    [where sink = "\<lparr>sink_index = 3, application_name = None\<rparr>"
       and chans = "[[''Music Player''], [''ANY'']]" and any_c = "Some 2"
       and vols = "[3 / 10, 9 / 10]" and p = "idle_pulse []" and rest = "[]"
       and sinks = "[stream 1 ''Music Player'', \<lparr>sink_index = 3, application_name = None\<rparr>,
            stream 2 ''Browser'']"
       and mx = "\<lparr>volumes = [3 / 10, 9 / 10], port = None, is_open = True, channels = 2\<rparr>"]
  by simp

subsection \<open>Exceptions that leave the loops\<close>

text \<open>
  Claim C6. \<^verbatim>\<open>read_volumes\<close> catches the \<^verbatim>\<open>SerialException\<close> of its own read
  and then calls \<^verbatim>\<open>_connect_mixer\<close> outside the \<^verbatim>\<open>try\<close>: when the port of the
  mixer is found again and does not open, the exception reaches the caller. In
  \<^verbatim>\<open>listen\<close> only \<^verbatim>\<open>PulseOperationFailed\<close> is caught: a stream routed to the third
  entry of a table, with the two volumes of the mixer, ends the pass, and the loop,
  with \<^verbatim>\<open>IndexError\<close>.
\<close>

theorem reconnect_failure_propagates:
  "read_volumes (Inl SerialException)
     [[\<lparr>device = ''/dev/ttyACM0'', subsystem = Some ''usb'',
        manufacturer = Some ''Arduino (www.arduino.cc)'', opens = False,
        greeting = Inr Hardware_Mixer, writable = True, reply = Inr [2]\<rparr>]]
     \<lparr>volumes = [1 / 2, 4 / 5], port = Some ''/dev/ttyACM0'', is_open = True, channels = 2\<rparr>
   = Some (Inl SerialException)
   \<and> fst (listen [[''Firefox''], [''VLC''], [''Spotify'']]
        (any_controller [[''Firefox''], [''VLC''], [''Spotify'']])
        [(\<lparr>volumes = [1 / 2, 4 / 5], port = Some ''/dev/ttyACM0'', is_open = True,
             channels = 2\<rparr>,
          [stream 1 ''Spotify'', stream 2 ''Firefox''])]
        (idle_pulse []))
     = Some IndexError"
  by (simp add: read_volumes_def connect_mixer_def any_controller_def listen_iteration_def
      listen_sink_def get_volumes_def list_get_def)

subsection \<open>The list of volumes under two threads\<close>

lemma stored_nth:
  assumes "i \<le> length values" and "i \<le> length old" and "j < length old"
  shows "(map f (take i values) @ drop i old) ! j = (if j < i then f (values ! j) else old ! j)"
  using assms by (auto simp: nth_append)

lemma race_inv_step:
  assumes "race_inv n values old s"
  shows "race_inv n values old (race_step n values t s)"
proof (cases t)
  case Mixer_listener
  show ?thesis
  proof (cases "next_i s < n \<and> next_i s < length values \<and> next_i s < length (stored s)")
    case True
    from assms have st: "stored s
        = map (\<lambda>b. real (unat b) / 100) (take (next_i s) values) @ drop (next_i s) old"
      and le: "next_i s \<le> length values" "next_i s \<le> length old"
      by (simp_all add: race_inv_def)
    from st le have "length (stored s) = length old" by simp
    with True have lt: "next_i s < length values" "next_i s < length old" "next_i s < n"
      by simp_all
    have "(stored s)[next_i s := real (unat (values ! next_i s)) / 100]
        = map (\<lambda>b. real (unat b) / 100) (take (Suc (next_i s)) values) @ drop (Suc (next_i s)) old"
      unfolding st using lt(1,2) by (rule write_prefix)
    with assms True lt Mixer_listener show ?thesis
      by (simp add: race_inv_def)
  next
    case False
    then have "race_step n values Mixer_listener s = s"
      by (simp only: race_step.simps if_False)
    with assms Mixer_listener show ?thesis by (simp only:)
  qed
next
  case Main_thread
  show ?thesis
  proof (cases "length (copy s) < length (stored s)")
    case True
    from assms have st: "stored s
        = map (\<lambda>b. real (unat b) / 100) (take (next_i s) values) @ drop (next_i s) old"
      and le: "next_i s \<le> length values" "next_i s \<le> length old" "next_i s \<le> n"
      and old: "\<forall>j<length (copy s).
            copy s ! j = old ! j
            \<or> j < n \<and> j < length values \<and> copy s ! j = real (unat (values ! j)) / 100"
      by (simp_all add: race_inv_def)
    from st le have len: "length (stored s) = length old" by simp
    let ?k = "length (copy s)"
    from True len have k: "?k < length old" by simp
    have new: "stored s ! ?k = old ! ?k
        \<or> ?k < n \<and> ?k < length values \<and> stored s ! ?k = real (unat (values ! ?k)) / 100"
      unfolding st using le k by (auto simp: stored_nth)
    have "\<forall>j<Suc ?k.
            (copy s @ [stored s ! ?k]) ! j = old ! j
            \<or> j < n \<and> j < length values
              \<and> (copy s @ [stored s ! ?k]) ! j = real (unat (values ! j)) / 100"
    proof (intro allI impI)
      fix j assume "j < Suc ?k"
      then consider "j < ?k" | "j = ?k" by linarith
      then show "(copy s @ [stored s ! ?k]) ! j = old ! j
            \<or> j < n \<and> j < length values
              \<and> (copy s @ [stored s ! ?k]) ! j = real (unat (values ! j)) / 100"
      proof cases
        case 1
        with old show ?thesis by (simp add: nth_append)
      next
        case 2
        with new show ?thesis by (simp add: nth_append)
      qed
    qed
    with assms True k Main_thread show ?thesis
      by (simp add: race_inv_def)
  next
    case False
    then have "race_step n values Main_thread s = s"
      by (simp only: race_step.simps if_False)
    with assms Main_thread show ?thesis by (simp only:)
  qed
qed

lemma race_inv_run:
  "race_inv n values old s \<Longrightarrow> race_inv n values old (race_run n values schedule s)"
  by (induction schedule arbitrary: s) (simp_all add: race_inv_step)

lemma race_inv_start: "race_inv n values old \<lparr>stored = old, next_i = 0, copy = []\<rparr>"
  by (simp add: race_inv_def)

lemma copy_untouched_by_writer: "copy (race_step n values Mixer_listener s) = copy s"
  by simp

text \<open>
  The main thread can copy the list between two assignments of the \<^verbatim>\<open>for\<close> loop:
  with 0.3 and 0.9 stored and the frame 50, 80 coming in, the copy is 0.5, 0.9, which
  is neither the old list nor the new one 0.5, 0.8.
\<close>

theorem torn_snapshot_counterexample:
  "copy (race_run 2 [50, 80] [Mixer_listener, Main_thread, Main_thread, Mixer_listener]
      \<lparr>stored = [3 / 10, 9 / 10], next_i = 0, copy = []\<rparr>) = [1 / 2, 9 / 10]
   \<and> volumes_loop [0..<2] [50, 80] [3 / 10, 9 / 10] = Inr [1 / 2, 4 / 5]
   \<and> stored (race_run 2 [50, 80] [Mixer_listener, Main_thread, Main_thread, Mixer_listener]
      \<lparr>stored = [3 / 10, 9 / 10], next_i = 0, copy = []\<rparr>) = [1 / 2, 4 / 5]"
  by (simp add: upt_rec)

text \<open>
  Claim C3, as the code has it. \<^verbatim>\<open>read_volumes\<close> writes the new volumes into the
  stored list in place, one channel after the other: at every moment the list holds
  the new values up to the channel reached and the old ones after it. Each item of
  the copy that \<^verbatim>\<open>get_volumes\<close> makes is the old or the new volume of its channel,
  and the copy is a list of its own: a later assignment of \<^verbatim>\<open>read_volumes\<close> does
  not change it.
\<close>

theorem snapshot_is_channelwise_old_or_new:
  assumes "s = race_run n values schedule \<lparr>stored = old, next_i = 0, copy = []\<rparr>"
  shows "stored s
           = map (\<lambda>b. real (unat b) / 100) (take (next_i s) values) @ drop (next_i s) old
       \<and> length (copy s) \<le> length old
       \<and> (\<forall>j<length (copy s).
             copy s ! j = old ! j
             \<or> j < n \<and> j < length values \<and> copy s ! j = real (unat (values ! j)) / 100)
       \<and> copy (race_step n values Mixer_listener s) = copy s"
proof -
  have "race_inv n values old s"
    unfolding assms by (intro race_inv_run race_inv_start)
  then show ?thesis
    unfolding race_inv_def by (simp del: race_step.simps add: copy_untouched_by_writer)
qed

theorem snapshot_is_channelwise_old_or_new_witness:
  "copy (race_run 2 [50, 80] [Main_thread, Mixer_listener, Mixer_listener, Main_thread]
      \<lparr>stored = [3 / 10, 9 / 10], next_i = 0, copy = []\<rparr>) = [3 / 10, 4 / 5]
   \<and> stored (race_run 2 [50, 80] [Main_thread, Mixer_listener, Mixer_listener, Main_thread]
      \<lparr>stored = [3 / 10, 9 / 10], next_i = 0, copy = []\<rparr>) = [1 / 2, 4 / 5]"
  using snapshot_is_channelwise_old_or_new
    [of "race_run 2 [50, 80] [Main_thread, Mixer_listener, Mixer_listener, Main_thread]
           \<lparr>stored = [3 / 10, 9 / 10], next_i = 0, copy = []\<rparr>"
        2 "[50, 80]" "[Main_thread, Mixer_listener, Mixer_listener, Main_thread]"
        "[3 / 10, 9 / 10]"]
  by simp

text \<open>
  The threads and the function agree: when the thread of the mixer has made all its
  steps, the stored list is the list that \<^verbatim>\<open>read_volumes\<close> stores.
\<close>

lemma writer_steps:
  "next_i s + k \<le> n \<Longrightarrow> n \<le> length values \<Longrightarrow> n \<le> length (stored s) \<Longrightarrow>
     next_i (race_run n values (replicate k Mixer_listener) s) = next_i s + k"
proof (induction k arbitrary: s)
  case 0
  show ?case by simp
next
  case (Suc k)
  let ?s' = "s\<lparr>stored := (stored s)[next_i s := real (unat (values ! next_i s)) / 100],
               next_i := Suc (next_i s)\<rparr>"
  from Suc.prems have step: "race_step n values Mixer_listener s = ?s'"
    by simp
  from Suc.prems have "next_i (race_run n values (replicate k Mixer_listener) ?s') = next_i ?s' + k"
    by (intro Suc.IH) simp_all
  with step show ?case
    by (simp del: race_step.simps)
qed

lemma race_agrees_with_volumes_loop:
  assumes "n \<le> length values" and "n \<le> length old"
  shows "volumes_loop [0..<n] values old
       = Inr (stored (race_run n values (replicate n Mixer_listener)
                \<lparr>stored = old, next_i = 0, copy = []\<rparr>))"
proof -
  let ?s = "race_run n values (replicate n Mixer_listener) \<lparr>stored = old, next_i = 0, copy = []\<rparr>"
  have "race_inv n values old ?s"
    by (intro race_inv_run race_inv_start)
  then have "stored ?s
      = map (\<lambda>b. real (unat b) / 100) (take (next_i ?s) values) @ drop (next_i ?s) old"
    by (simp only: race_inv_def)
  moreover have "next_i ?s = n"
    using writer_steps [of "\<lparr>stored = old, next_i = 0, copy = []\<rparr>" n n "values"] assms
    by simp
  ultimately show ?thesis
    using volumes_loop_as_run [OF assms] by (simp only:)
qed

end
